theory Spec2Isabelle
  imports Main "HOL-Library.AList"
begin

section \<open>The wildcard event emitter of \<open>src/events.js\<close>\<close>

subsection \<open>Values: patterns, handlers, outcomes\<close>

text \<open>
  The first argument of \<open>on\<close>, \<open>once\<close> and \<open>off\<close> is a string or an array
  (tested with \<open>Array.isArray\<close>, and walked with \<open>forEach\<close>, so arrays may nest).
\<close>

datatype name = Str string | Arr "name list"

text \<open>
  A handler is a JavaScript value.  \<open>Undefined\<close> is the value \<open>undefined\<close>
  (\<open>off\<close> tests for it with \<open>===\<close>); \<open>Null\<close> stands for the other falsy values;
  \<open>Fn k\<close> is the function object number \<open>k\<close> supplied by a caller; and
  \<open>Process i nm h\<close> is the closure \<open>process\<close> that the \<open>i\<close>-th call of
  \<open>once\<close> allocates, with the \<open>name\<close> and \<open>handler\<close> it captured.  Equality of
  handlers is JavaScript's reference equality: every function object has its own number.
  Truthy values that are not functions are not considered.
\<close>

datatype handler = Undefined | Null | Fn nat | Process nat name handler

fun truthy :: "handler \<Rightarrow> bool" where
  "truthy Undefined = False"
| "truthy Null = False"
| "truthy (Fn k) = True"
| "truthy (Process i nm h) = True"

text \<open>
  What a caller's function does when it is applied: it returns a value that is not a
  rejected promise, it throws, or it returns a promise that rejects.  Callers' functions are
  taken not to re-enter the emitter; the closure of \<open>once\<close> is the one handler that does.
\<close>

datatype outcome = Returns | Throws | Rejects

datatype error = TypeError | Thrown nat | Rejected nat

type_synonym args = "nat list"

type_synonym log = "(handler \<times> args) list"

subsection \<open>The trie node \<open>EventEntry\<close>\<close>

text \<open>
  \<open>children\<close> is the object \<open>{}\<close> (own properties in insertion order),
  \<open>handlers\<close> and \<open>allBelow\<close> are the two arrays, \<open>u_all\<close> is the property
  \<open>_all\<close> (absent until \<open>getAll\<close> creates it).
\<close>

datatype EventEntry =
  EventEntry (children: "(string \<times> EventEntry) list") (handlers: "handler list")
    (allBelow: "handler list") (u_all: "EventEntry option")

definition new_EventEntry :: EventEntry where
  "new_EventEntry = EventEntry [] [] [] None"

definition set_children :: "(string \<times> EventEntry) list \<Rightarrow> EventEntry \<Rightarrow> EventEntry" where
  "set_children cs n = EventEntry cs (handlers n) (allBelow n) (u_all n)"

definition set_handlers :: "handler list \<Rightarrow> EventEntry \<Rightarrow> EventEntry" where
  "set_handlers hs n = EventEntry (children n) hs (allBelow n) (u_all n)"

definition set_allBelow :: "handler list \<Rightarrow> EventEntry \<Rightarrow> EventEntry" where
  "set_allBelow bs n = EventEntry (children n) (handlers n) bs (u_all n)"

definition set_all :: "EventEntry \<Rightarrow> EventEntry \<Rightarrow> EventEntry" where
  "set_all a n = EventEntry (children n) (handlers n) (allBelow n) (Some a)"

text \<open>
  \<open>children\<close> is a plain object, so \<open>this.children[key]\<close> also finds the properties
  every object inherits from \<open>Object.prototype\<close>.  For these keys the lookup yields a
  truthy value that is not an \<open>EventEntry\<close>, and the next use of it throws.
\<close>

definition inherited :: "string \<Rightarrow> bool" where
  "inherited key \<longleftrightarrow> key \<in> set [''constructor'', ''__proto__'', ''hasOwnProperty'',
     ''isPrototypeOf'', ''propertyIsEnumerable'', ''toLocaleString'', ''toString'',
     ''valueOf'', ''__defineGetter__'', ''__defineSetter__'', ''__lookupGetter__'',
     ''__lookupSetter__'']"

text \<open>\<open>getExisting\<close>: the own property \<open>key\<close> of \<open>children\<close>, if there is one.\<close>

definition getExisting :: "EventEntry \<Rightarrow> string \<Rightarrow> EventEntry option" where
  "getExisting n key = map_of (children n) key"

text \<open>
  \<open>getChild\<close>, for a key that is not inherited: the child, and the node with the child
  stored when it was created.  The walks below descend into the child and store the
  result back, which is what mutating the shared object amounts to in a tree.
\<close>

definition getChild :: "EventEntry \<Rightarrow> string \<Rightarrow> EventEntry" where
  "getChild n key = (case map_of (children n) key of None \<Rightarrow> new_EventEntry | Some c \<Rightarrow> c)"

definition put_child :: "string \<Rightarrow> EventEntry \<Rightarrow> EventEntry \<Rightarrow> EventEntry" where
  "put_child key c n = set_children (AList.update key c (children n)) n"

text \<open>\<open>getAll\<close>: \<open>this._all = this._all || new EventEntry()\<close>.\<close>

definition getAll :: "EventEntry \<Rightarrow> EventEntry" where
  "getAll n = (case u_all n of None \<Rightarrow> new_EventEntry | Some a \<Rightarrow> a)"

subsection \<open>The emitter\<close>

record Events =
  delimiter :: string
  wildcard :: string
  doubleWild :: string
  u_events :: EventEntry
  storeHandlers :: "(handler list \<Rightarrow> handler list) option"
  event :: "string option"
  closures :: nat

text \<open>
  \<open>u_events\<close> is the field \<open>_events\<close>; \<open>event\<close> is unset until the first emission;
  \<open>closures\<close> counts the function objects \<open>once\<close> has allocated, which gives each
  \<open>process\<close> closure its identity.  The field \<open>cache\<close>, which no method reads, is
  left out.  The constructor's \<open>wildcard\<close> may be \<open>true\<close>.
\<close>

datatype wildcard_param = WTrue | WStr string

record props =
  p_delimiter :: "string option"
  p_wildcard :: "wildcard_param option"
  p_storeHandlers :: "(handler list \<Rightarrow> handler list) option"

definition new_Events :: "props \<Rightarrow> Events" where
  "new_Events p =
    (let w = (case p_wildcard p of None \<Rightarrow> ''*'' | Some WTrue \<Rightarrow> ''*'' | Some (WStr s) \<Rightarrow> s)
     in \<lparr> delimiter = (case p_delimiter p of None \<Rightarrow> ''.'' | Some d \<Rightarrow> d),
          wildcard = w,
          doubleWild = w @ w,
          u_events = new_EventEntry,
          storeHandlers = p_storeHandlers p,
          event = None,
          closures = 0 \<rparr>)"

definition defaults :: props where
  "defaults = \<lparr> p_delimiter = None, p_wildcard = None, p_storeHandlers = None \<rparr>"

subsection \<open>\<open>String.prototype.split\<close> with a string separator\<close>

function split_from :: "string \<Rightarrow> string \<Rightarrow> string \<Rightarrow> string list" where
  "split_from d cur [] = [cur]"
| "split_from d cur (c # cs) =
     (if d \<noteq> [] \<and> take (length d) (c # cs) = d
      then cur # split_from d [] (drop (length d) (c # cs))
      else split_from d (cur @ [c]) cs)"
  by pat_completeness auto
termination
  by (relation "measure (\<lambda>(d, cur, s). length s)") auto

definition split :: "string \<Rightarrow> string \<Rightarrow> string list" where
  "split s d = (if d = [] then map (\<lambda>c. [c]) s else split_from d [] s)"

subsection \<open>Registration: \<open>on\<close> and \<open>once\<close>\<close>

text \<open>\<open>storeHandlers ? storeHandlers(bucket) : bucket\<close>; the hook is taken to be a pure function.\<close>

definition store :: "Events \<Rightarrow> handler list \<Rightarrow> handler list" where
  "store em hs = (case storeHandlers em of None \<Rightarrow> hs | Some f \<Rightarrow> f hs)"

text \<open>
  The loop of \<open>on\<close> over \<open>parts\<close>, from the node \<open>scan\<close>, and the two statements after
  it.  The result is the exception thrown, if any, and the node with everything below it as
  the walk leaves it (a walk that throws keeps what it has created so far).  After
  \<open>getChild\<close> has returned an inherited property, any next statement of \<open>on\<close> throws:
  \<open>getAll\<close> and \<open>getChild\<close> are not functions of that value, and its \<open>allBelow\<close>
  and \<open>handlers\<close> are \<open>undefined\<close>.  (The model keeps no state for these objects of
  the JavaScript realm: it describes the calls made while nothing has written an
  \<open>allBelow\<close> property to them, which only \<open>off\<close> without a handler can do.)
\<close>

fun on_walk :: "Events \<Rightarrow> handler \<Rightarrow> string list \<Rightarrow> EventEntry \<Rightarrow> error option \<times> EventEntry" where
  "on_walk em h [] scan = (None, set_handlers (store em (handlers scan @ [h])) scan)"
| "on_walk em h (part # parts) scan =
     (if part = wildcard em then
        (let (e, a) = on_walk em h parts (getAll scan) in (e, set_all a scan))
      else if part = doubleWild em then
        on_walk em h parts (set_allBelow (store em (allBelow scan @ [h])) scan)
      else if inherited part then (Some TypeError, scan)
      else
        (let (e, c) = on_walk em h parts (getChild scan part) in (e, put_child part c scan)))"

fun on_name :: "Events \<Rightarrow> handler \<Rightarrow> name \<Rightarrow> EventEntry \<Rightarrow> error option \<times> EventEntry"
  and on_names :: "Events \<Rightarrow> handler \<Rightarrow> name list \<Rightarrow> EventEntry \<Rightarrow> error option \<times> EventEntry" where
  "on_name em h (Str s) t = on_walk em h (split s (delimiter em)) t"
| "on_name em h (Arr ns) t = on_names em h ns t"
| "on_names em h [] t = (None, t)"
| "on_names em h (n # ns) t =
     (case on_name em h n t of
        (Some e, t') \<Rightarrow> (Some e, t')
      | (None, t') \<Rightarrow> on_names em h ns t')"

definition on :: "Events \<Rightarrow> name \<Rightarrow> handler \<Rightarrow> error option \<times> Events" where
  "on em nm h =
     (if \<not> truthy h then (None, em)
      else (let (e, t) = on_name em h nm (u_events em) in (e, em\<lparr>u_events := t\<rparr>)))"

text \<open>
  \<open>once\<close> allocates the closure \<open>process\<close> and registers it with \<open>on\<close>; the function
  it returns calls \<open>off\<close> with the same name and closure.
\<close>

definition process_of :: "Events \<Rightarrow> name \<Rightarrow> handler \<Rightarrow> handler" where
  "process_of em nm h = Process (closures em) nm h"

definition once :: "Events \<Rightarrow> name \<Rightarrow> handler \<Rightarrow> error option \<times> Events" where
  "once em nm h = on (em\<lparr>closures := Suc (closures em)\<rparr>) nm (process_of em nm h)"

definition removeAllListeners :: "Events \<Rightarrow> Events" where
  "removeAllListeners em = em\<lparr>u_events := new_EventEntry\<rparr>"

subsection \<open>Removal: \<open>off\<close>\<close>

text \<open>
  The loop of \<open>off\<close> and the statements after it.  \<open>indexOf\<close> and \<open>splice(idx, 1)\<close>
  remove the first element identical to the handler.  A call without a handler passes
  \<open>Undefined\<close>.  When \<open>getExisting\<close> has returned an inherited property, the next
  statement throws, except \<open>scan.allBelow = []\<close>, which writes to that foreign object and
  returns.  That write is not recorded: a later call that reaches the same object, and
  would find the array there, is outside the model.
\<close>

fun off_walk :: "Events \<Rightarrow> handler \<Rightarrow> string list \<Rightarrow> EventEntry \<Rightarrow> error option \<times> EventEntry" where
  "off_walk em h [] scan =
     (None, if h \<noteq> Undefined then set_handlers (remove1 h (handlers scan)) scan
            else set_handlers [] scan)"
| "off_walk em h (part # parts) scan =
     (if part = wildcard em then
        (let (e, a) = off_walk em h parts (getAll scan) in (e, set_all a scan))
      else if part = doubleWild em then
        (None, if h = Undefined then set_allBelow [] scan
               else set_allBelow (remove1 h (allBelow scan)) scan)
      else if inherited part then
        (case parts of
           [] \<Rightarrow> (Some TypeError, scan)
         | next # rest \<Rightarrow>
             if next \<noteq> wildcard em \<and> next = doubleWild em \<and> h = Undefined then (None, scan)
             else (Some TypeError, scan))
      else
        (case getExisting scan part of
           None \<Rightarrow> (None, scan)
         | Some c \<Rightarrow> (let (e, c') = off_walk em h parts c in (e, put_child part c' scan))))"

fun off_name :: "Events \<Rightarrow> handler \<Rightarrow> name \<Rightarrow> EventEntry \<Rightarrow> error option \<times> EventEntry"
  and off_names :: "Events \<Rightarrow> handler \<Rightarrow> name list \<Rightarrow> EventEntry \<Rightarrow> error option \<times> EventEntry" where
  "off_name em h (Str s) t = off_walk em h (split s (delimiter em)) t"
| "off_name em h (Arr ns) t = off_names em h ns t"
| "off_names em h [] t = (None, t)"
| "off_names em h (n # ns) t =
     (case off_name em h n t of
        (Some e, t') \<Rightarrow> (Some e, t')
      | (None, t') \<Rightarrow> off_names em h ns t')"

definition off :: "Events \<Rightarrow> name \<Rightarrow> handler \<Rightarrow> error option \<times> Events" where
  "off em nm h = (let (e, t) = off_name em h nm (u_events em) in (e, em\<lparr>u_events := t\<rparr>))"

subsection \<open>Applying a handler\<close>

text \<open>
  \<open>fn.apply(this, params)\<close>.  Applying a value that is not a function throws a
  \<open>TypeError\<close>.  A caller's function is logged with its arguments and completes as its
  \<open>outcome\<close> says.  The closure \<open>process\<close> first calls \<open>self.off(name, process)\<close>,
  then \<open>handler(...params)\<close>, and returns \<open>undefined\<close> whatever the handler returned.
\<close>

datatype completion = Normal | Rejecting nat | Throw error

type_synonym run = "Events \<times> log"

fun apply_handler :: "(nat \<Rightarrow> outcome) \<Rightarrow> handler \<Rightarrow> args \<Rightarrow> run \<Rightarrow> completion \<times> run" where
  "apply_handler beh Undefined ps s = (Throw TypeError, s)"
| "apply_handler beh Null ps s = (Throw TypeError, s)"
| "apply_handler beh (Fn k) ps s =
     ((case beh k of Returns \<Rightarrow> Normal | Throws \<Rightarrow> Throw (Thrown k) | Rejects \<Rightarrow> Rejecting k),
      (fst s, snd s @ [(Fn k, ps)]))"
| "apply_handler beh (Process i nm h) ps s =
     (case off (fst s) nm (Process i nm h) of
        (Some e, em') \<Rightarrow> (Throw e, (em', snd s @ [(Process i nm h, ps)]))
      | (None, em') \<Rightarrow>
          (case apply_handler beh h ps (em', snd s @ [(Process i nm h, ps)]) of
             (Throw e, s') \<Rightarrow> (Throw e, s')
           | (c, s') \<Rightarrow> (Normal, s')))"

subsection \<open>The walk of \<open>_emit\<close>\<close>

text \<open>
  While \<open>_emit\<close> runs with a \<open>call\<close> function, the handlers it applies may change the
  trie, and \<open>_emit\<close> reads \<open>scan._all\<close>, \<open>scan.children\<close>, \<open>allBelow[i]\<close> and
  \<open>currentHandlers[i]\<close> from the live objects.  The node \<open>scan\<close> is therefore kept as
  its position under the root, and read from the current trie at each use.  This is the
  object the source holds: \<open>off\<close>, the only operation a handler of this model performs,
  replaces no node and, called with a handler, no array (it splices in place).
\<close>

datatype step = All | Child string

fun lookup :: "step list \<Rightarrow> EventEntry \<Rightarrow> EventEntry option" where
  "lookup [] n = Some n"
| "lookup (All # sc) n = (case u_all n of None \<Rightarrow> None | Some a \<Rightarrow> lookup sc a)"
| "lookup (Child key # sc) n =
     (case getExisting n key of None \<Rightarrow> None | Some c \<Rightarrow> lookup sc c)"

text \<open>
  The node at a position, as \<open>getAll\<close> and \<open>getChild\<close> would return it: the one stored
  there, or a node with nothing in it.
\<close>

definition entry_at :: "step list \<Rightarrow> EventEntry \<Rightarrow> EventEntry" where
  "entry_at sc t = (case lookup sc t of None \<Rightarrow> new_EventEntry | Some n \<Rightarrow> n)"

definition node_at :: "step list \<Rightarrow> run \<Rightarrow> EventEntry" where
  "node_at sc s = entry_at sc (u_events (fst s))"

text \<open>
  \<open>for (--i; i >= 0; i--) { const handler = allBelow[i]; if (handler) call(handler) }\<close>:
  the third argument is \<open>i + 1\<close>.  An index past the end reads \<open>undefined\<close>.
\<close>

fun below_loop :: "(nat \<Rightarrow> outcome) \<Rightarrow> args \<Rightarrow> step list \<Rightarrow> nat \<Rightarrow> run \<Rightarrow> error option \<times> run" where
  "below_loop beh ps sc 0 s = (None, s)"
| "below_loop beh ps sc (Suc i) s =
     (let allBelow = allBelow (node_at sc s) in
      if i < length allBelow \<and> truthy (allBelow ! i) then
        (case apply_handler beh (allBelow ! i) ps s of
           (Throw e, s') \<Rightarrow> (Some e, s')
         | (c, s') \<Rightarrow> below_loop beh ps sc i s')
      else below_loop beh ps sc i s)"

text \<open>
  \<open>for (let i = 0, l = currentHandlers.length; i < l; i++)\<close>: the arguments are \<open>i\<close>
  and \<open>l - i\<close>; the length is read once.
\<close>

fun handlers_loop :: "(nat \<Rightarrow> outcome) \<Rightarrow> args \<Rightarrow> step list \<Rightarrow> nat \<Rightarrow> nat \<Rightarrow> run \<Rightarrow> error option \<times> run" where
  "handlers_loop beh ps sc i 0 s = (None, s)"
| "handlers_loop beh ps sc i (Suc r) s =
     (let currentHandlers = handlers (node_at sc s) in
      if i < length currentHandlers \<and> truthy (currentHandlers ! i) then
        (case apply_handler beh (currentHandlers ! i) ps s of
           (Throw e, s') \<Rightarrow> (Some e, s')
         | (c, s') \<Rightarrow> handlers_loop beh ps sc (Suc i) r s')
      else handlers_loop beh ps sc (Suc i) r s)"

text \<open>
  \<open>_emit(scan, parts, index, null, call)\<close> for a node \<open>scan\<close> that exists, with the
  segments from \<open>index\<close> on.  One iteration of the outer loop runs the backward loop,
  recurses into \<open>_all\<close> when it is set, and moves to \<open>scan.children[parts[index]]\<close>;
  a missing child ends the walk, an inherited property makes the next read
  (\<open>allBelow.length\<close> or \<open>currentHandlers.length\<close>) throw.
\<close>

fun emit_eager :: "(nat \<Rightarrow> outcome) \<Rightarrow> args \<Rightarrow> step list \<Rightarrow> string list \<Rightarrow> run \<Rightarrow> error option \<times> run" where
  "emit_eager beh ps sc [] s = handlers_loop beh ps sc 0 (length (handlers (node_at sc s))) s"
| "emit_eager beh ps sc (part # parts) s =
     (case below_loop beh ps sc (length (allBelow (node_at sc s))) s of
        (Some e, s1) \<Rightarrow> (Some e, s1)
      | (None, s1) \<Rightarrow>
          (case (if u_all (node_at sc s1) \<noteq> None then emit_eager beh ps (sc @ [All]) parts s1
                 else (None, s1)) of
             (Some e, s2) \<Rightarrow> (Some e, s2)
           | (None, s2) \<Rightarrow>
               if inherited part then (Some TypeError, s2)
               else if getExisting (node_at sc s2) part = None then (None, s2)
               else emit_eager beh ps (sc @ [Child part]) parts s2))"

text \<open>
  \<open>emit\<close> records the event, walks from the root and returns \<open>params\<close>; an exception of
  a handler leaves \<open>emit\<close> uncaught.  The result carries the emitter afterwards and the
  log of the functions applied, in order.  (\<open>emitAsync\<close> makes the same walk and wraps
  each result in a promise; nothing below is about it.)
\<close>

definition emit :: "(nat \<Rightarrow> outcome) \<Rightarrow> Events \<Rightarrow> string \<Rightarrow> args \<Rightarrow> (error + args) \<times> run" where
  "emit beh em ev ps =
     (let (e, s) = emit_eager beh ps [] (split ev (delimiter em)) (em\<lparr>event := Some ev\<rparr>, [])
      in (case e of None \<Rightarrow> Inr ps | Some x \<Rightarrow> Inl x, s))"

text \<open>
  \<open>_emit(scan, parts, index, handlers)\<close> without \<open>call\<close>: nothing is applied, so the trie
  does not change and the node is passed as a value.  The buckets are appended forward.
\<close>

fun collect :: "string list \<Rightarrow> EventEntry \<Rightarrow> handler list \<Rightarrow> error + handler list" where
  "collect [] scan hs = Inr (hs @ handlers scan)"
| "collect (part # parts) scan hs =
     (case (case u_all scan of None \<Rightarrow> Inr (hs @ allBelow scan)
            | Some a \<Rightarrow> collect parts a (hs @ allBelow scan)) of
        Inl e \<Rightarrow> Inl e
      | Inr hs' \<Rightarrow>
          if inherited part then Inl TypeError
          else (case getExisting scan part of
                  None \<Rightarrow> Inr hs'
                | Some c \<Rightarrow> collect parts c hs'))"

text \<open>
  \<open>for (const handler of handlers) await handler.apply(this, params)\<close>: the next handler
  is applied only when the previous result has settled; a thrown exception or a rejected
  promise rejects the promise of \<open>emitAsyncSequential\<close> and ends the loop.  Code that runs
  between two awaits is outside the model.
\<close>

fun await_each :: "(nat \<Rightarrow> outcome) \<Rightarrow> args \<Rightarrow> handler list \<Rightarrow> run \<Rightarrow> error option \<times> run" where
  "await_each beh ps [] s = (None, s)"
| "await_each beh ps (h # hs) s =
     (case apply_handler beh h ps s of
        (Normal, s') \<Rightarrow> await_each beh ps hs s'
      | (Rejecting k, s') \<Rightarrow> (Some (Rejected k), s')
      | (Throw e, s') \<Rightarrow> (Some e, s'))"

definition emitAsyncSequential :: "(nat \<Rightarrow> outcome) \<Rightarrow> Events \<Rightarrow> string \<Rightarrow> args \<Rightarrow> (error + args) \<times> run" where
  "emitAsyncSequential beh em ev ps =
     (case collect (split ev (delimiter em)) (u_events em) [] of
        Inl x \<Rightarrow> (Inl x, (em\<lparr>event := Some ev\<rparr>, []))
      | Inr hs \<Rightarrow>
          (let (e, s) = await_each beh ps hs (em\<lparr>event := Some ev\<rparr>, [])
           in (case e of None \<Rightarrow> Inr ps | Some x \<Rightarrow> Inl x, s)))"

subsection \<open>Reading results\<close>

text \<open>
  \<open>on\<close>, \<open>once\<close> and \<open>off\<close> yield the exception raised, if any, and the emitter
  afterwards; the emissions yield what was returned or thrown, the emitter afterwards, and
  the log of what was applied.
\<close>

abbreviation raised :: "error option \<times> Events \<Rightarrow> error option" where
  "raised r \<equiv> fst r"

abbreviation after :: "error option \<times> Events \<Rightarrow> Events" where
  "after r \<equiv> snd r"

abbreviation returned :: "(error + args) \<times> run \<Rightarrow> error + args" where
  "returned r \<equiv> fst r"

abbreviation emitter_after :: "(error + args) \<times> run \<Rightarrow> Events" where
  "emitter_after r \<equiv> fst (snd r)"

abbreviation applied :: "(error + args) \<times> run \<Rightarrow> log" where
  "applied r \<equiv> snd (snd r)"

subsection \<open>Positions of a pattern, and the invariant of the trie\<close>

text \<open>
  The position a registration walk reaches after the given segments: a wildcard segment
  steps into \<open>_all\<close>, a double wildcard stays where it is, any other segment steps into
  the child of that name.
\<close>

fun steps :: "Events \<Rightarrow> string list \<Rightarrow> step list" where
  "steps em [] = []"
| "steps em (part # parts) =
     (if part = wildcard em then All # steps em parts
      else if part = doubleWild em then steps em parts
      else Child part # steps em parts)"

text \<open>No key of any \<open>children\<close> object in the trie is one of the two wildcard tokens.\<close>

fun no_wild_keys :: "string \<Rightarrow> string \<Rightarrow> EventEntry \<Rightarrow> bool" where
  "no_wild_keys w ww (EventEntry cs hs bs a) =
     (list_all (\<lambda>(key, c). key \<noteq> w \<and> key \<noteq> ww \<and> no_wild_keys w ww c) cs \<and>
      (case a of None \<Rightarrow> True | Some n \<Rightarrow> no_wild_keys w ww n))"

definition children_unwild :: "Events \<Rightarrow> bool" where
  "children_unwild em = no_wild_keys (wildcard em) (doubleWild em) (u_events em)"

text \<open>
  The trie that registrations along one pattern build from an empty root: a single path
  of otherwise empty nodes down to the node \<open>leaf\<close>.
\<close>

fun chain :: "Events \<Rightarrow> string list \<Rightarrow> EventEntry \<Rightarrow> EventEntry" where
  "chain em [] leaf = leaf"
| "chain em (part # parts) leaf =
     (if part = wildcard em then set_all (chain em parts leaf) new_EventEntry
      else put_child part (chain em parts leaf) new_EventEntry)"

text \<open>
  An event matches a pattern without double wildcards when they have the same number of
  segments and each pattern segment is the wildcard or equals the event's segment.
\<close>

fun matches :: "Events \<Rightarrow> string list \<Rightarrow> string list \<Rightarrow> bool" where
  "matches em [] [] = True"
| "matches em (e # es) (part # parts) = ((part = wildcard em \<or> e = part) \<and> matches em es parts)"
| "matches em [] (part # parts) = False"
| "matches em (e # es) [] = False"

section \<open>Properties\<close>

subsection \<open>Evaluation of the definitions\<close>

lemmas node_simps = new_EventEntry_def set_children_def set_handlers_def set_allBelow_def
  set_all_def getExisting_def getChild_def put_child_def getAll_def store_def node_at_def
  entry_at_def Let_def

lemma new_Events_defaults:
  "new_Events defaults = \<lparr>delimiter = ''.'', wildcard = ''*'', doubleWild = ''**'',
     u_events = EventEntry [] [] [] None, storeHandlers = None, event = None, closures = 0\<rparr>"
  by (simp add: new_Events_def defaults_def new_EventEntry_def Let_def)

lemma split_a: "split ''a'' ''.'' = [''a'']"
  by code_simp

lemma split_a_b: "split ''a.b'' ''.'' = [''a'', ''b'']"
  by code_simp

lemma split_a_b_c: "split ''a.b.c'' ''.'' = [''a'', ''b'', ''c'']"
  by code_simp

lemma split_a_ww: "split ''a.**'' ''.'' = [''a'', ''**'']"
  by code_simp

lemma not_inherited_abc: "\<not> inherited ''a''" "\<not> inherited ''b''" "\<not> inherited ''c''"
  by code_simp+

lemma not_inherited_wild: "\<not> inherited ''*''" "\<not> inherited ''**''"
  by code_simp+

lemma on_a_ww:
  "on (new_Events defaults) (Str ''a.**'') (Fn k) =
     (None, (new_Events defaults)\<lparr>u_events :=
        EventEntry [(''a'', EventEntry [] [Fn k] [Fn k] None)] [] [] None\<rparr>)"
  by (simp add: on_def new_Events_defaults split_a_ww node_simps not_inherited_abc)

subsection \<open>Selectors of the updated nodes\<close>

lemma sel_set_handlers [simp]:
  "children (set_handlers hs n) = children n" "handlers (set_handlers hs n) = hs"
  "allBelow (set_handlers hs n) = allBelow n" "u_all (set_handlers hs n) = u_all n"
  by (simp_all add: set_handlers_def)

lemma sel_set_allBelow [simp]:
  "children (set_allBelow bs n) = children n" "handlers (set_allBelow bs n) = handlers n"
  "allBelow (set_allBelow bs n) = bs" "u_all (set_allBelow bs n) = u_all n"
  by (simp_all add: set_allBelow_def)

lemma sel_set_all [simp]:
  "children (set_all a n) = children n" "handlers (set_all a n) = handlers n"
  "allBelow (set_all a n) = allBelow n" "u_all (set_all a n) = Some a"
  by (simp_all add: set_all_def)

lemma sel_put_child [simp]:
  "children (put_child key c n) = AList.update key c (children n)"
  "handlers (put_child key c n) = handlers n"
  "allBelow (put_child key c n) = allBelow n" "u_all (put_child key c n) = u_all n"
  by (simp_all add: put_child_def set_children_def)

lemma sel_new [simp]:
  "children new_EventEntry = []" "handlers new_EventEntry = []"
  "allBelow new_EventEntry = []" "u_all new_EventEntry = None"
  by (simp_all add: new_EventEntry_def)

lemma getExisting_put_child [simp]:
  "getExisting (put_child key c n) key' = (if key' = key then Some c else getExisting n key')"
  by (simp add: getExisting_def update_conv')

lemma getExisting_other [simp]:
  "getExisting (set_handlers hs n) key = getExisting n key"
  "getExisting (set_allBelow bs n) key = getExisting n key"
  "getExisting (set_all a n) key = getExisting n key"
  "getExisting new_EventEntry key = None"
  by (simp_all add: getExisting_def)

subsection \<open>Below-wildcard registrations fire at every depth\<close>

text \<open>
  C2.  On an emitter constructed with the defaults, a function registered once on
  \<open>a.**\<close> is applied exactly once, with the emitted arguments, by each of
  \<open>emit("a")\<close>, \<open>emit("a.b")\<close> and \<open>emit("a.b.c")\<close>, whatever the function does.
\<close>

theorem below_wildcard_fires_once:
  "applied (emit beh (after (on (new_Events defaults) (Str ''a.**'') (Fn k))) ''a'' ps)
     = [(Fn k, ps)] \<and>
   applied (emit beh (after (on (new_Events defaults) (Str ''a.**'') (Fn k))) ''a.b'' ps)
     = [(Fn k, ps)] \<and>
   applied (emit beh (after (on (new_Events defaults) (Str ''a.**'') (Fn k))) ''a.b.c'' ps)
     = [(Fn k, ps)]"
  unfolding on_a_ww snd_conv
  by (simp add: emit_def new_Events_defaults split_a split_a_b split_a_b_c node_simps
      not_inherited_abc split: outcome.splits)

subsection \<open>The wildcard tokens are never keys of \<open>children\<close>\<close>

lemma nwk_iff:
  "no_wild_keys w ww n \<longleftrightarrow>
     list_all (\<lambda>(key, c). key \<noteq> w \<and> key \<noteq> ww \<and> no_wild_keys w ww c) (children n) \<and>
     (case u_all n of None \<Rightarrow> True | Some a \<Rightarrow> no_wild_keys w ww a)"
  by (cases n) simp

lemma nwk_new [simp]: "no_wild_keys w ww new_EventEntry"
  by (simp add: new_EventEntry_def)

lemma nwk_set [simp]:
  "no_wild_keys w ww (set_handlers hs n) = no_wild_keys w ww n"
  "no_wild_keys w ww (set_allBelow bs n) = no_wild_keys w ww n"
  by (simp_all add: nwk_iff [of _ _ "set_handlers hs n"] nwk_iff [of _ _ "set_allBelow bs n"] nwk_iff [of _ _ n])

lemma nwk_set_all: "no_wild_keys w ww n \<Longrightarrow> no_wild_keys w ww a \<Longrightarrow> no_wild_keys w ww (set_all a n)"
  by (simp add: nwk_iff [of _ _ "set_all a n"] nwk_iff [of _ _ n])

lemma list_all_update:
  "list_all P al \<Longrightarrow> P (k, v) \<Longrightarrow> list_all P (AList.update k v al)"
  by (induction al) auto

lemma nwk_put_child:
  "no_wild_keys w ww n \<Longrightarrow> no_wild_keys w ww c \<Longrightarrow> key \<noteq> w \<Longrightarrow> key \<noteq> ww \<Longrightarrow>
   no_wild_keys w ww (put_child key c n)"
  by (simp add: nwk_iff [of _ _ "put_child key c n"] nwk_iff [of _ _ n] list_all_update)

lemma nwk_getExisting:
  "no_wild_keys w ww n \<Longrightarrow> getExisting n key = Some c \<Longrightarrow> no_wild_keys w ww c"
  by (auto simp: nwk_iff [of _ _ n] getExisting_def list_all_iff dest!: map_of_SomeD)

lemma nwk_getChild: "no_wild_keys w ww n \<Longrightarrow> no_wild_keys w ww (getChild n key)"
  using nwk_getExisting [of w ww n key]
  by (auto simp: getChild_def getExisting_def split: option.splits)

lemma nwk_getAll: "no_wild_keys w ww n \<Longrightarrow> no_wild_keys w ww (getAll n)"
  by (auto simp: getAll_def nwk_iff [of _ _ n] split: option.splits)

lemma nwk_on_walk:
  "no_wild_keys (wildcard em) (doubleWild em) scan \<Longrightarrow>
   no_wild_keys (wildcard em) (doubleWild em) (snd (on_walk em h parts scan))"
proof (induction parts arbitrary: scan)
  case Nil
  then show ?case by simp
next
  case (Cons part parts)
  show ?case
  proof (cases "part = wildcard em")
    case True
    with Cons show ?thesis
      by (auto simp: split_beta intro!: nwk_set_all dest: nwk_getAll)
  next
    case False
    note nw = this
    show ?thesis
    proof (cases "part = doubleWild em")
      case True
      with nw Cons show ?thesis by simp
    next
      case False
      with nw Cons show ?thesis
        by (auto simp: split_beta intro!: nwk_put_child dest: nwk_getChild)
    qed
  qed
qed

lemma nwk_off_walk:
  "no_wild_keys (wildcard em) (doubleWild em) scan \<Longrightarrow>
   no_wild_keys (wildcard em) (doubleWild em) (snd (off_walk em h parts scan))"
proof (induction parts arbitrary: scan)
  case Nil
  then show ?case by simp
next
  case (Cons part parts)
  show ?case
  proof (cases "part = wildcard em")
    case True
    with Cons show ?thesis
      by (auto simp: split_beta intro!: nwk_set_all dest: nwk_getAll)
  next
    case False
    note nw = this
    show ?thesis
    proof (cases "part = doubleWild em")
      case True
      with nw Cons show ?thesis by simp
    next
      case False
      note nww = this
      show ?thesis
      proof (cases "inherited part")
        case True
        with nw nww Cons.prems show ?thesis
          by (simp split: list.splits)
      next
        case False
        note ni = this
        show ?thesis
        proof (cases "getExisting scan part")
          case None
          with nw nww ni Cons.prems show ?thesis by simp
        next
          case (Some c)
          with Cons.prems have "no_wild_keys (wildcard em) (doubleWild em) c"
            by (simp add: nwk_getExisting)
          then have "no_wild_keys (wildcard em) (doubleWild em) (snd (off_walk em h parts c))"
            by (rule Cons.IH)
          with nw nww ni Some Cons.prems show ?thesis
            by (simp add: split_beta nwk_put_child)
        qed
      qed
    qed
  qed
qed

lemma nwk_on_name:
  "no_wild_keys (wildcard em) (doubleWild em) t \<Longrightarrow>
   no_wild_keys (wildcard em) (doubleWild em) (snd (on_name em h nm t))"
  "no_wild_keys (wildcard em) (doubleWild em) t \<Longrightarrow>
   no_wild_keys (wildcard em) (doubleWild em) (snd (on_names em h ns t))"
proof (induction em h nm t and em h ns t rule: on_name_on_names.induct)
  case (4 em h n ns t)
  then show ?case
    by (cases "on_name em h n t") (auto split: option.splits)
qed (simp_all add: nwk_on_walk)

lemma nwk_off_name:
  "no_wild_keys (wildcard em) (doubleWild em) t \<Longrightarrow>
   no_wild_keys (wildcard em) (doubleWild em) (snd (off_name em h nm t))"
  "no_wild_keys (wildcard em) (doubleWild em) t \<Longrightarrow>
   no_wild_keys (wildcard em) (doubleWild em) (snd (off_names em h ns t))"
proof (induction em h nm t and em h ns t rule: off_name_off_names.induct)
  case (4 em h n ns t)
  then show ?case
    by (cases "off_name em h n t") (auto split: option.splits)
qed (simp_all add: nwk_off_walk)

lemma tokens_on [simp]:
  "wildcard (after (on em nm h)) = wildcard em" "doubleWild (after (on em nm h)) = doubleWild em"
  by (simp_all add: on_def split_beta)

lemma tokens_off [simp]:
  "wildcard (after (off em nm h)) = wildcard em" "doubleWild (after (off em nm h)) = doubleWild em"
  by (simp_all add: off_def split_beta)

lemma children_unwild_on: "children_unwild em \<Longrightarrow> children_unwild (after (on em nm h))"
  using nwk_on_name(1) [of em "u_events em" h nm]
  by (simp add: children_unwild_def on_def split_beta)

lemma children_unwild_off: "children_unwild em \<Longrightarrow> children_unwild (after (off em nm h))"
  using nwk_off_name(1) [of em "u_events em" h nm]
  by (simp add: children_unwild_def off_def split_beta)

text \<open>
  C8.  A new emitter has no wildcard token among the keys of any \<open>children\<close> object, and
  \<open>on\<close>, \<open>once\<close>, \<open>off\<close> and \<open>removeAllListeners\<close> keep it so, for every pattern
  (string or array) and every handler, also when the operation throws.
\<close>

theorem children_never_wildcard_keys:
  "children_unwild (new_Events p) \<and>
   (children_unwild em \<longrightarrow>
      children_unwild (after (on em nm h)) \<and> children_unwild (after (once em nm h)) \<and>
      children_unwild (after (off em nm h)) \<and> children_unwild (removeAllListeners em))"
proof -
  have "children_unwild (new_Events p)"
    by (simp add: children_unwild_def new_Events_def Let_def)
  moreover have "children_unwild (after (once em nm h))" if "children_unwild em"
  proof -
    from that have "children_unwild (em\<lparr>closures := Suc (closures em)\<rparr>)"
      by (simp add: children_unwild_def)
    then show ?thesis unfolding once_def by (rule children_unwild_on)
  qed
  moreover have "children_unwild (removeAllListeners em)"
    by (simp add: children_unwild_def removeAllListeners_def)
  ultimately show ?thesis
    by (simp add: children_unwild_on children_unwild_off)
qed

theorem children_never_wildcard_keys_witness:
  "children_unwild (new_Events defaults) \<and>
   children_unwild (after (on (new_Events defaults) (Str ''a.*.**'') (Fn 0))) \<and>
   children_unwild (after (once (new_Events defaults) (Str ''a.*.**'') (Fn 0))) \<and>
   children_unwild (after (off (new_Events defaults) (Str ''a.*.**'') (Fn 0))) \<and>
   children_unwild (removeAllListeners (new_Events defaults))"
  using children_never_wildcard_keys [of defaults "new_Events defaults" "Str ''a.*.**''" "Fn 0"]
  by blast

subsection \<open>Nodes at positions\<close>

lemma entry_at_Nil [simp]: "entry_at [] t = t"
  by (simp add: entry_at_def)

lemma entry_at_new [simp]: "entry_at sc new_EventEntry = new_EventEntry"
proof (cases sc)
  case Nil
  then show ?thesis by (simp add: entry_at_def)
next
  case (Cons st sc')
  then show ?thesis by (cases st) (simp_all add: entry_at_def getExisting_def)
qed

lemma entry_at_All [simp]: "entry_at (All # sc) t = entry_at sc (getAll t)"
  using entry_at_new [of sc]
  by (simp add: entry_at_def getAll_def split: option.splits)

lemma entry_at_Child [simp]: "entry_at (Child key # sc) t = entry_at sc (getChild t key)"
  using entry_at_new [of sc]
  by (simp add: entry_at_def getChild_def getExisting_def split: option.splits)

lemma entry_at_append: "entry_at (sc @ sc') t = entry_at sc' (entry_at sc t)"
proof (induction sc arbitrary: t)
  case Nil
  show ?case by simp
next
  case (Cons st sc)
  then show ?case by (cases st) simp_all
qed

lemma getAll_set_all [simp]: "getAll (set_all a n) = a"
  by (simp add: getAll_def)

lemma getChild_put_child [simp]: "getChild (put_child key c n) key = c"
  by (simp add: getChild_def update_conv')

lemma getAll_new [simp]: "getAll new_EventEntry = new_EventEntry"
  by (simp add: getAll_def)

lemma getChild_new [simp]: "getChild new_EventEntry key = new_EventEntry"
  by (simp add: getChild_def)

subsection \<open>A pattern that ends in the double wildcard, on any trie\<close>

lemma on_walk_trailing:
  assumes "doubleWild em \<noteq> wildcard em"
    and "doubleWild em \<notin> set pre"
    and "\<forall>x\<in>set pre. \<not> inherited x"
  shows "fst (on_walk em h (pre @ [doubleWild em]) scan) = None \<and>
         lookup (steps em pre) (snd (on_walk em h (pre @ [doubleWild em]) scan)) =
           Some (set_handlers (store em (handlers (entry_at (steps em pre) scan) @ [h]))
                  (set_allBelow (store em (allBelow (entry_at (steps em pre) scan) @ [h]))
                    (entry_at (steps em pre) scan)))"
  using assms(2,3)
proof (induction pre arbitrary: scan)
  case Nil
  with assms(1) show ?case by simp
next
  case (Cons part pre)
  then have IH: "\<And>scan. fst (on_walk em h (pre @ [doubleWild em]) scan) = None \<and>
         lookup (steps em pre) (snd (on_walk em h (pre @ [doubleWild em]) scan)) =
           Some (set_handlers (store em (handlers (entry_at (steps em pre) scan) @ [h]))
                  (set_allBelow (store em (allBelow (entry_at (steps em pre) scan) @ [h]))
                    (entry_at (steps em pre) scan)))"
    by simp
  from Cons.prems have pw: "part \<noteq> doubleWild em" and ni: "\<not> inherited part"
    by auto
  show ?case
  proof (cases "part = wildcard em")
    case True
    with IH [of "getAll scan"] show ?thesis
      by (simp add: split_beta)
  next
    case False
    with pw ni IH [of "getChild scan part"] show ?thesis
      by (simp add: split_beta)
  qed
qed


subsection \<open>Walks along a single path\<close>

lemma sel_chain_Cons [simp]:
  "handlers (chain em (part # parts) leaf) = []" "allBelow (chain em (part # parts) leaf) = []"
  by simp_all

lemma put_child_twice [simp]: "put_child key c' (put_child key c n) = put_child key c' n"
  by (cases n) (simp add: put_child_def set_children_def)

lemma set_all_twice [simp]: "set_all a' (set_all a n) = set_all a' n"
  by (simp add: set_all_def)

lemma entry_at_chain:
  "doubleWild em \<notin> set pre \<Longrightarrow> entry_at (steps em pre) (chain em pre leaf) = leaf"
  by (induction pre) auto

lemma on_walk_new_chain:
  assumes "doubleWild em \<notin> set pre" and "\<forall>x\<in>set pre. \<not> inherited x"
  shows "on_walk em h (pre @ post) new_EventEntry =
           (fst (on_walk em h post new_EventEntry),
            chain em pre (snd (on_walk em h post new_EventEntry)))"
  using assms by (induction pre) (auto simp: split_beta)

lemma on_walk_chain:
  assumes "doubleWild em \<notin> set pre" and "\<forall>x\<in>set pre. \<not> inherited x"
  shows "on_walk em h (pre @ post) (chain em pre leaf) =
           (fst (on_walk em h post leaf), chain em pre (snd (on_walk em h post leaf)))"
  using assms by (induction pre) (auto simp: split_beta)

lemma off_walk_chain:
  assumes "doubleWild em \<notin> set pre" and "\<forall>x\<in>set pre. \<not> inherited x"
  shows "off_walk em h (pre @ post) (chain em pre leaf) =
           (fst (off_walk em h post leaf), chain em pre (snd (off_walk em h post leaf)))"
  using assms by (induction pre) (auto simp: split_beta)

lemma node_at_step:
  "node_at (sc @ [All]) s = getAll (node_at sc s)"
  "node_at (sc @ [Child key]) s = getChild (node_at sc s) key"
  by (simp_all add: node_at_def entry_at_append)

lemma emit_eager_chain:
  assumes "matches em es pre"
    and "\<forall>x\<in>set es. \<not> inherited x"
    and "doubleWild em \<notin> set pre"
    and "node_at sc s = chain em pre leaf"
    and "emit_eager beh ps (sc @ steps em pre) rest s = (r, s')"
    and "r = None \<Longrightarrow> u_events (fst s') = u_events (fst s)"
  shows "emit_eager beh ps sc (es @ rest) s = (r, s')"
  using assms(1-5)
proof (induction em es pre arbitrary: sc rule: matches.induct)
  case (1 em)
  then show ?case by simp
next
  case (2 em e es part parts)
  from "2.prems" have m: "matches em es parts" and pe: "part = wildcard em \<or> e = part"
    and ni: "\<not> inherited e" "\<forall>x\<in>set es. \<not> inherited x"
    and nw: "part \<noteq> doubleWild em" "doubleWild em \<notin> set parts"
    by auto
  have below: "below_loop beh ps sc (length (allBelow (node_at sc s))) s = (None, s)"
    using "2.prems"(4) by simp
  show ?case
  proof (cases "part = wildcard em")
    case True
    with "2.prems"(4) have node: "node_at sc s = set_all (chain em parts leaf) new_EventEntry"
      by simp
    then have next_node: "node_at (sc @ [All]) s = chain em parts leaf"
      by (simp add: node_at_step)
    from "2.prems"(5) True have run: "emit_eager beh ps ((sc @ [All]) @ steps em parts) rest s = (r, s')"
      by simp
    have rec: "emit_eager beh ps (sc @ [All]) (es @ rest) s = (r, s')"
      by (rule "2.IH" [OF m ni(2) nw(2) next_node run])
    show ?thesis
    proof (cases r)
      case None
      with assms(6) have "node_at sc s' = node_at sc s"
        by (simp add: node_at_def)
      with node have "getExisting (node_at sc s') e = None"
        by simp
      with below node rec None ni(1) show ?thesis
        by simp
    next
      case (Some x)
      with below node rec show ?thesis
        by simp
    qed
  next
    case False
    with pe have e: "e = part" by simp
    from False "2.prems"(4) have node: "node_at sc s = put_child part (chain em parts leaf) new_EventEntry"
      by simp
    then have next_node: "node_at (sc @ [Child part]) s = chain em parts leaf"
      by (simp add: node_at_step)
    from "2.prems"(5) False nw(1) have run: "emit_eager beh ps ((sc @ [Child part]) @ steps em parts) rest s = (r, s')"
      by simp
    have rec: "emit_eager beh ps (sc @ [Child part]) (es @ rest) s = (r, s')"
      by (rule "2.IH" [OF m ni(2) nw(2) next_node run])
    from below node rec e ni(1) show ?thesis
      by simp
  qed
qed simp_all

lemma emit_eager_chain_leaf:
  assumes "matches em es pre"
    and "\<forall>x\<in>set es. \<not> inherited x"
    and "doubleWild em \<notin> set pre"
    and "node_at sc s = chain em pre leaf"
    and "emit_eager beh ps (sc @ steps em pre) rest s = (r, s')"
    and "node_at sc s' = chain em pre leaf'"
  shows "emit_eager beh ps sc (es @ rest) s = (r, s')"
  using assms
proof (induction em es pre arbitrary: sc rule: matches.induct)
  case (1 em)
  then show ?case by simp
next
  case (2 em e es part parts)
  from "2.prems" have m: "matches em es parts" and pe: "part = wildcard em \<or> e = part"
    and ni: "\<not> inherited e" "\<forall>x\<in>set es. \<not> inherited x"
    and nw: "part \<noteq> doubleWild em" "doubleWild em \<notin> set parts"
    by auto
  have below: "below_loop beh ps sc (length (allBelow (node_at sc s))) s = (None, s)"
    using "2.prems"(4) by simp
  show ?case
  proof (cases "part = wildcard em")
    case True
    with "2.prems"(4) have node: "node_at sc s = set_all (chain em parts leaf) new_EventEntry"
      by simp
    from True "2.prems"(6) have node': "node_at sc s' = set_all (chain em parts leaf') new_EventEntry"
      by simp
    from node have next_node: "node_at (sc @ [All]) s = chain em parts leaf"
      by (simp add: node_at_step)
    from node' have next_node': "node_at (sc @ [All]) s' = chain em parts leaf'"
      by (simp add: node_at_step)
    from "2.prems"(5) True have run: "emit_eager beh ps ((sc @ [All]) @ steps em parts) rest s = (r, s')"
      by simp
    have rec: "emit_eager beh ps (sc @ [All]) (es @ rest) s = (r, s')"
      by (rule "2.IH" [OF m ni(2) nw(2) next_node run next_node'])
    from node' have "getExisting (node_at sc s') e = None"
      by simp
    with below node rec ni(1) show ?thesis
      by (cases r) simp_all
  next
    case False
    with pe have e: "e = part" by simp
    from False "2.prems"(4) have node: "node_at sc s = put_child part (chain em parts leaf) new_EventEntry"
      by simp
    from False "2.prems"(6) have node': "node_at sc s' = put_child part (chain em parts leaf') new_EventEntry"
      by simp
    from node have next_node: "node_at (sc @ [Child part]) s = chain em parts leaf"
      by (simp add: node_at_step)
    from node' have next_node': "node_at (sc @ [Child part]) s' = chain em parts leaf'"
      by (simp add: node_at_step)
    from "2.prems"(5) False nw(1) have run: "emit_eager beh ps ((sc @ [Child part]) @ steps em parts) rest s = (r, s')"
      by simp
    have rec: "emit_eager beh ps (sc @ [Child part]) (es @ rest) s = (r, s')"
      by (rule "2.IH" [OF m ni(2) nw(2) next_node run next_node'])
    from below node rec e ni(1) show ?thesis
      by simp
  qed
qed simp_all

lemma collect_chain:
  assumes "matches em es pre" and "\<forall>x\<in>set es. \<not> inherited x"
  shows "collect (es @ rest) (chain em pre leaf) hs = collect rest leaf hs"
  using assms
proof (induction em es pre arbitrary: hs rule: matches.induct)
  case (2 em e es part parts)
  then show ?case
    by (cases "collect rest leaf hs") (auto)
qed simp_all

subsection \<open>What \<open>on\<close> does with a double wildcard\<close>

lemma config_on [simp]:
  "delimiter (after (on em nm h)) = delimiter em" "storeHandlers (after (on em nm h)) = storeHandlers em"
  by (simp_all add: on_def split_beta)

lemma config_off [simp]:
  "delimiter (after (off em nm h)) = delimiter em" "storeHandlers (after (off em nm h)) = storeHandlers em"
  by (simp_all add: off_def split_beta)

lemma split_ww_a: "split ''**.a'' ''.'' = [''**'', ''a'']"
  by code_simp

text \<open>
  Where the emitter's double wildcard differs from its wildcard (it does unless the
  wildcard is the empty string): for a pattern whose last segment, and no other, is the
  double wildcard, and whose other segments are not names inherited from
  \<open>Object.prototype\<close>, \<open>on\<close> with a truthy handler does not throw, the node reached by
  the segments before the double wildcard exists afterwards, and the handler has been
  appended both to that node's \<open>allBelow\<close> and to that node's exact \<open>handlers\<close>, each
  passed through the storage hook.
\<close>

lemma on_trailing_double_wildcard:
  assumes "truthy h"
    and "doubleWild em \<noteq> wildcard em"
    and "split s (delimiter em) = pre @ [doubleWild em]"
    and "doubleWild em \<notin> set pre"
    and "\<forall>x\<in>set pre. \<not> inherited x"
  shows "raised (on em (Str s) h) = None \<and>
         lookup (steps em pre) (u_events (after (on em (Str s) h))) \<noteq> None \<and>
         allBelow (entry_at (steps em pre) (u_events (after (on em (Str s) h)))) =
           store em (allBelow (entry_at (steps em pre) (u_events em)) @ [h]) \<and>
         handlers (entry_at (steps em pre) (u_events (after (on em (Str s) h)))) =
           store em (handlers (entry_at (steps em pre) (u_events em)) @ [h])"
  using on_walk_trailing [OF assms(2,4,5), of h "u_events em"] assms(1,3)
  by (simp add: on_def split_beta entry_at_def [of _ "snd (on_walk em h (pre @ [doubleWild em]) (u_events em))"])

text \<open>
  C1 at two inputs, on a default emitter.  C1 says that \<open>on\<close> stops at a double wildcard
  and puts the handler in no exact \<open>handlers\<close> bucket.  \<open>on("a.**", f)\<close> leaves
  \<open>f\<close> in the exact \<open>handlers\<close> of node \<open>a\<close>, which was empty before; and
  \<open>on("**.a", f)\<close> consumes the segment after the double wildcard: it creates the child
  \<open>a\<close> and registers \<open>f\<close> in its \<open>handlers\<close>.  The double-wildcard branch of \<open>on\<close>
  does not return, as the one of \<open>off\<close> does.
\<close>

theorem on_double_wildcard_reaches_handlers:
  "handlers (entry_at [Child ''a''] (u_events (new_Events defaults))) = [] \<and>
   handlers (entry_at [Child ''a'']
     (u_events (after (on (new_Events defaults) (Str ''a.**'') (Fn 0))))) = [Fn 0] \<and>
   u_events (after (on (new_Events defaults) (Str ''**.a'') (Fn 0))) =
     EventEntry [(''a'', EventEntry [] [Fn 0] [] None)] [] [Fn 0] None"
  by (simp add: on_def new_Events_defaults split_a_ww split_ww_a node_simps not_inherited_abc)

subsection \<open>Registering and removing a pattern that ends in the double wildcard\<close>


lemma node_at_log [simp]: "node_at sc (em, lg) = entry_at sc (u_events em)"
  by (simp add: node_at_def)


lemma off_walk_tokens:
  assumes "wildcard em' = wildcard em" and "doubleWild em' = doubleWild em"
  shows "off_walk em' h parts scan = off_walk em h parts scan"
  using assms by (induction parts arbitrary: scan) (simp_all split: option.splits list.splits)

lemma on_Str_truthy:
  "truthy h \<Longrightarrow> on em (Str s) h =
     (fst (on_walk em h (split s (delimiter em)) (u_events em)),
      em\<lparr>u_events := snd (on_walk em h (split s (delimiter em)) (u_events em))\<rparr>)"
  by (simp add: on_def split_beta)

lemma off_Str:
  "off em (Str s) h =
     (fst (off_walk em h (split s (delimiter em)) (u_events em)),
      em\<lparr>u_events := snd (off_walk em h (split s (delimiter em)) (u_events em))\<rparr>)"
  by (simp add: off_def split_beta)













subsection \<open>Order within a below-wildcard bucket\<close>

lemma on_walk_tokens:
  assumes "wildcard em' = wildcard em" and "doubleWild em' = doubleWild em"
    and "storeHandlers em' = storeHandlers em"
  shows "on_walk em' h parts scan = on_walk em h parts scan"
  using assms by (induction parts arbitrary: scan) (simp_all add: store_def)

text \<open>
  C3.  On an emitter with no registrations and no storage hook, register the functions
  \<open>Fn i\<close> and then \<open>Fn j\<close> on the same pattern, whose last and only double-wildcard
  segment follows the segments \<open>pre\<close>; both return normally.  For an event that matches
  \<open>pre\<close> and has at least one more segment, \<open>emit\<close> applies \<open>Fn j\<close> and then
  \<open>Fn i\<close>, and \<open>emitAsyncSequential\<close> applies \<open>Fn i\<close> and then \<open>Fn j\<close>.  (When
  the segment after the match is a name inherited from \<open>Object.prototype\<close>, the collecting
  walk throws before anything is applied.)
\<close>

theorem below_bucket_order:
  assumes "storeHandlers em = None"
    and "u_events em = new_EventEntry"
    and "doubleWild em \<noteq> wildcard em"
    and "split s (delimiter em) = pre @ [doubleWild em]"
    and "doubleWild em \<notin> set pre"
    and "\<forall>x\<in>set pre. \<not> inherited x"
    and "split ev (delimiter em) = es @ r # rs"
    and "matches em es pre"
    and "\<forall>x\<in>set es. \<not> inherited x"
    and "beh i = Returns"
    and "beh j = Returns"
  shows "applied (emit beh (after (on (after (on em (Str s) (Fn i))) (Str s) (Fn j))) ev ps)
           = [(Fn j, ps), (Fn i, ps)] \<and>
         (\<not> inherited r \<longrightarrow>
          applied (emitAsyncSequential beh
             (after (on (after (on em (Str s) (Fn i))) (Str s) (Fn j))) ev ps)
           = [(Fn i, ps), (Fn j, ps)])"
proof
  let ?ww = "doubleWild em"
  let ?leaf = "EventEntry [] [Fn i, Fn j] [Fn i, Fn j] None"
  let ?em2 = "after (on (after (on em (Str s) (Fn i))) (Str s) (Fn j))"
  let ?t1 = "snd (on_walk em (Fn i) (pre @ [?ww]) (u_events em))"
  let ?t2 = "snd (on_walk em (Fn j) (pre @ [?ww]) ?t1)"
  have em2: "?em2 = em\<lparr>u_events := ?t2\<rparr>"
    using assms(4)
    by (simp add: on_Str_truthy on_walk_tokens [of "em\<lparr>u_events := ?t1\<rparr>" em])
  have c1: "?t1 = chain em pre (EventEntry [] [Fn i] [Fn i] None)"
    using assms(1,2,3) on_walk_new_chain [OF assms(5,6), of "Fn i" "[?ww]"]
    by (simp add: store_def set_handlers_def set_allBelow_def new_EventEntry_def)
  have c2: "?t2 = chain em pre ?leaf"
    unfolding c1 using assms(1,3) on_walk_chain [OF assms(5,6), of "Fn j" "[?ww]"]
    by (simp add: store_def set_handlers_def set_allBelow_def)
  let ?s = "(em\<lparr>u_events := ?t2, event := Some ev\<rparr>, [] :: log)"
  have leaf: "entry_at (steps em pre) ?t2 = ?leaf"
    by (simp add: c2 entry_at_chain [OF assms(5)])
  have at_leaf: "emit_eager beh ps ([] @ steps em pre) (r # rs) ?s =
      (if inherited r then Some TypeError else None, (fst ?s, [(Fn j, ps), (Fn i, ps)]))"
    using assms(10,11) by (simp add: leaf Let_def getExisting_def)
  have "emit_eager beh ps [] (es @ r # rs) ?s =
      (if inherited r then Some TypeError else None, (fst ?s, [(Fn j, ps), (Fn i, ps)]))"
    by (rule emit_eager_chain [OF assms(8,9,5) _ at_leaf]) (simp_all add: c2)
  then show "applied (emit beh ?em2 ev ps) = [(Fn j, ps), (Fn i, ps)]"
    unfolding em2 using assms(7) by (simp add: emit_def)
  show "\<not> inherited r \<longrightarrow>
      applied (emitAsyncSequential beh ?em2 ev ps) = [(Fn i, ps), (Fn j, ps)]"
  proof
    assume "\<not> inherited r"
    then have "collect (es @ r # rs) ?t2 [] = Inr [Fn i, Fn j]"
      unfolding c2 by (simp add: collect_chain [OF assms(8,9)] getExisting_def)
    then show "applied (emitAsyncSequential beh ?em2 ev ps) = [(Fn i, ps), (Fn j, ps)]"
      unfolding em2 using assms(7,10,11) by (simp add: emitAsyncSequential_def)
  qed
qed

theorem below_bucket_order_witness:
  "applied (emit (\<lambda>k. Returns)
      (after (on (after (on (new_Events defaults) (Str ''a.**'') (Fn 1))) (Str ''a.**'') (Fn 2)))
      ''a.b'' [7]) = [(Fn 2, [7]), (Fn 1, [7])] \<and>
   applied (emitAsyncSequential (\<lambda>k. Returns)
      (after (on (after (on (new_Events defaults) (Str ''a.**'') (Fn 1))) (Str ''a.**'') (Fn 2)))
      ''a.b'' [7]) = [(Fn 1, [7]), (Fn 2, [7])]"
  using below_bucket_order [where em = "new_Events defaults" and s = "''a.**''"
      and pre = "[''a'']" and ev = "''a.b''" and es = "[''a'']" and r = "''b''" and rs = "[]"
      and i = 1 and j = 2 and beh = "\<lambda>k. Returns" and ps = "[7]"]
  by (simp add: new_Events_defaults split_a_ww split_a_b not_inherited_abc new_EventEntry_def)

subsection \<open>The single-segment wildcard\<close>

lemma split_a_w_c: "split ''a.*.c'' ''.'' = [''a'', ''*'', ''c'']"
  by code_simp

lemma split_a_x_c: "split ''a.x.c'' ''.'' = [''a'', ''x'', ''c'']"
  by code_simp

lemma split_a_y_c: "split ''a.y.c'' ''.'' = [''a'', ''y'', ''c'']"
  by code_simp

lemma split_a_x_y_c: "split ''a.x.y.c'' ''.'' = [''a'', ''x'', ''y'', ''c'']"
  by code_simp

lemma split_a_c: "split ''a.c'' ''.'' = [''a'', ''c'']"
  by code_simp

lemma not_inherited_xy: "\<not> inherited ''x''" "\<not> inherited ''y''"
  by code_simp+

lemma on_a_w_c:
  "on (new_Events defaults) (Str ''a.*.c'') (Fn k) =
     (None, (new_Events defaults)\<lparr>u_events :=
        EventEntry [(''a'', EventEntry [] [] []
          (Some (EventEntry [(''c'', EventEntry [] [Fn k] [] None)] [] [] None)))] [] [] None\<rparr>)"
  by (simp add: on_def new_Events_defaults split_a_w_c node_simps not_inherited_abc)

text \<open>
  C4.  On a default emitter with a function registered on \<open>a.*.c\<close>: every event of
  three segments \<open>a\<close>, any segment, \<open>c\<close> applies the function exactly once (so do
  \<open>emit("a.x.c")\<close> and \<open>emit("a.y.c")\<close>), while \<open>emit("a.x.y.c")\<close> and
  \<open>emit("a.c")\<close> apply nothing.
\<close>

theorem single_wildcard_one_segment:
  "(split ev ''.'' = [''a'', seg, ''c''] \<longrightarrow>
      applied (emit beh (after (on (new_Events defaults) (Str ''a.*.c'') (Fn k))) ev ps)
        = [(Fn k, ps)]) \<and>
   applied (emit beh (after (on (new_Events defaults) (Str ''a.*.c'') (Fn k))) ''a.x.c'' ps)
     = [(Fn k, ps)] \<and>
   applied (emit beh (after (on (new_Events defaults) (Str ''a.*.c'') (Fn k))) ''a.y.c'' ps)
     = [(Fn k, ps)] \<and>
   applied (emit beh (after (on (new_Events defaults) (Str ''a.*.c'') (Fn k))) ''a.x.y.c'' ps)
     = [] \<and>
   applied (emit beh (after (on (new_Events defaults) (Str ''a.*.c'') (Fn k))) ''a.c'' ps)
     = []"
  unfolding on_a_w_c snd_conv
  by (simp add: emit_def new_Events_defaults split_a_x_c split_a_y_c split_a_x_y_c split_a_c
      node_simps not_inherited_abc not_inherited_xy split: outcome.splits)

theorem single_wildcard_one_segment_witness:
  "split ''a.x.c'' ''.'' = [''a'', ''x'', ''c''] \<and>
   applied (emit (\<lambda>k. Returns) (after (on (new_Events defaults) (Str ''a.*.c'') (Fn 0)))
      ''a.x.c'' [7]) = [(Fn 0, [7])]"
  using single_wildcard_one_segment [where ev = "''a.x.c''" and seg = "''x''" and k = 0
      and beh = "\<lambda>k. Returns" and ps = "[7]"]
  by (simp add: split_a_x_c)

subsection \<open>Sequential asynchronous emission\<close>

lemma await_each_returning:
  assumes "\<forall>x\<in>set xs. beh x = Returns"
  shows "await_each beh ps (map Fn xs @ rest) (em, lg) =
           await_each beh ps rest (em, lg @ map (\<lambda>x. (Fn x, ps)) xs)"
  using assms by (induction xs arbitrary: lg) simp_all

text \<open>
  C7.  Let the collecting walk for an event yield the functions \<open>xs\<close>, then the function
  \<open>k\<close>, then any handlers \<open>ys\<close>; the functions \<open>xs\<close> return normally, and \<open>k\<close> throws
  or returns a promise that rejects.  Then the promise of \<open>emitAsyncSequential\<close> rejects
  with the reason of \<open>k\<close>, and what has been applied is exactly \<open>xs\<close> in their order and
  then \<open>k\<close>: none of \<open>ys\<close>.
\<close>

theorem sequential_stops_at_first_rejection:
  assumes "collect (split ev (delimiter em)) (u_events em) [] = Inr (map Fn xs @ Fn k # ys)"
    and "\<forall>x\<in>set xs. beh x = Returns"
    and "beh k \<noteq> Returns"
  shows "emitAsyncSequential beh em ev ps =
           (Inl (if beh k = Throws then Thrown k else Rejected k),
            (em\<lparr>event := Some ev\<rparr>, map (\<lambda>x. (Fn x, ps)) (xs @ [k])))"
proof -
  have "await_each beh ps (map Fn xs @ Fn k # ys) (em\<lparr>event := Some ev\<rparr>, []) =
      (Some (if beh k = Throws then Thrown k else Rejected k),
       (em\<lparr>event := Some ev\<rparr>, map (\<lambda>x. (Fn x, ps)) (xs @ [k])))"
    using assms(3) by (cases "beh k") (simp_all add: await_each_returning [OF assms(2)])
  with assms(1) show ?thesis
    by (simp add: emitAsyncSequential_def)
qed

lemma on_a_three:
  "after (on (after (on (after (on (new_Events defaults) (Str ''a'') (Fn 0))) (Str ''a'') (Fn 1)))
      (Str ''a'') (Fn 2)) =
   (new_Events defaults)\<lparr>u_events :=
      EventEntry [(''a'', EventEntry [] [Fn 0, Fn 1, Fn 2] [] None)] [] [] None\<rparr>"
  by (simp add: on_def new_Events_defaults split_a node_simps not_inherited_abc)

theorem sequential_stops_at_first_rejection_witness:
  "emitAsyncSequential (\<lambda>k. if k = 1 then Rejects else Returns)
     (after (on (after (on (after (on (new_Events defaults) (Str ''a'') (Fn 0))) (Str ''a'') (Fn 1)))
        (Str ''a'') (Fn 2))) ''a'' [7] =
   (Inl (Rejected 1),
    (after (on (after (on (after (on (new_Events defaults) (Str ''a'') (Fn 0))) (Str ''a'') (Fn 1)))
        (Str ''a'') (Fn 2)))\<lparr>event := Some ''a''\<rparr>,
     [(Fn 0, [7]), (Fn 1, [7])])"
  using sequential_stops_at_first_rejection [where em = "after (on (after (on (snd (on
      (new_Events defaults) (Str ''a'') (Fn 0))) (Str ''a'') (Fn 1))) (Str ''a'') (Fn 2))"
      and ev = "''a''" and xs = "[0]" and k = 1 and ys = "[Fn 2]"
      and beh = "\<lambda>k. if k = 1 then Rejects else Returns" and ps = "[7]"]
  unfolding on_a_three
  by (simp add: new_Events_defaults split_a not_inherited_abc getExisting_def)

subsection \<open>\<open>once\<close> with a falsy handler\<close>

lemma apply_handler_falsy: "\<not> truthy h \<Longrightarrow> apply_handler beh h ps s = (Throw TypeError, s)"
  by (cases h) simp_all

lemma off_walk_update [simp]:
  "off_walk (em\<lparr>u_events := t\<rparr>) = off_walk em"
  "off_walk (em\<lparr>event := e\<rparr>) = off_walk em"
  "off_walk (em\<lparr>closures := c\<rparr>) = off_walk em"
  by (intro ext off_walk_tokens; simp)+

lemma on_walk_update [simp]:
  "on_walk (em\<lparr>u_events := t\<rparr>) = on_walk em"
  "on_walk (em\<lparr>event := e\<rparr>) = on_walk em"
  "on_walk (em\<lparr>closures := c\<rparr>) = on_walk em"
  by (intro ext on_walk_tokens; simp)+

lemma chain_update [simp]:
  "chain (em\<lparr>u_events := t\<rparr>) pre leaf = chain em pre leaf"
  "chain (em\<lparr>event := e\<rparr>) pre leaf = chain em pre leaf"
  "chain (em\<lparr>closures := c\<rparr>) pre leaf = chain em pre leaf"
  by (induction pre; simp)+

text \<open>
  C10.  Let \<open>h\<close> be falsy, on an emitter with no registrations and no storage hook, and
  let the pattern \<open>s\<close> have the segments \<open>pre\<close>, none of them a double wildcard,
  followed by nothing or by one double wildcard.  \<open>on(s, h)\<close> does nothing.
  \<open>once(s, h)\<close> does not throw and leaves its closure \<open>process\<close>, a truthy value, as
  the one handler of the node of \<open>pre\<close>.  Emitting an event that matches \<open>pre\<close> (and, for
  a pattern that ends in the double wildcard, may go deeper) then applies that closure and
  nothing else, and \<open>emit\<close> throws a \<open>TypeError\<close>: the closure has called \<open>off\<close> and
  then the falsy handler.
\<close>

theorem once_registers_wrapper_of_falsy_handler:
  assumes "\<not> truthy h"
    and "u_events em = new_EventEntry"
    and "storeHandlers em = None"
    and "doubleWild em \<noteq> wildcard em"
    and "split s (delimiter em) = pre @ post"
    and "post = [] \<or> post = [doubleWild em]"
    and "doubleWild em \<notin> set pre"
    and "\<forall>x\<in>set pre. \<not> inherited x"
    and "split ev (delimiter em) = es @ rest"
    and "post = [] \<longrightarrow> rest = []"
    and "matches em es pre"
    and "\<forall>x\<in>set es. \<not> inherited x"
  shows "on em (Str s) h = (None, em) \<and>
         raised (once em (Str s) h) = None \<and>
         truthy (process_of em (Str s) h) \<and>
         handlers (entry_at (steps em pre) (u_events (after (once em (Str s) h))))
           = [process_of em (Str s) h] \<and>
         returned (emit beh (after (once em (Str s) h)) ev ps) = Inl TypeError \<and>
         applied (emit beh (after (once em (Str s) h)) ev ps) = [(process_of em (Str s) h, ps)]"
proof -
  let ?w = "process_of em (Str s) h"
  let ?leaf = "EventEntry [] [?w] (if post = [] then [] else [?w]) None"
  let ?em0 = "em\<lparr>closures := Suc (closures em)\<rparr>"
  let ?em1 = "after (once em (Str s) h)"
  have w: "?w = Process (closures em) (Str s) h" and tw: "truthy ?w"
    by (simp_all add: process_of_def)
  have post: "on_walk em ?w post new_EventEntry = (None, ?leaf)"
    using assms(3,4,6) by (auto simp: store_def set_handlers_def set_allBelow_def new_EventEntry_def)
  have walk: "on_walk ?em0 ?w (pre @ post) new_EventEntry = (None, chain em pre ?leaf)"
    using on_walk_new_chain [OF assms(7,8), of ?w post] post by simp
  have once: "once em (Str s) h = (None, ?em0\<lparr>u_events := chain em pre ?leaf\<rparr>)"
    using walk assms(2,5) tw by (simp add: once_def on_Str_truthy)
  let ?s = "(?em0\<lparr>u_events := chain em pre ?leaf, event := Some ev\<rparr>, [] :: log)"
  let ?gone = "EventEntry [] (if post = [] then [] else [?w]) [] None"
  have post_off: "off_walk em ?w post ?leaf = (None, ?gone)"
    using assms(4,6) by (auto simp: w set_handlers_def set_allBelow_def)
  have off: "off (fst ?s) (Str s) ?w = (None, (fst ?s)\<lparr>u_events := chain em pre ?gone\<rparr>)"
    using off_walk_chain [OF assms(7,8), of ?w post ?leaf] assms(5) post_off
    by (simp add: off_Str)
  have leaf: "node_at (steps em pre) ?s = ?leaf"
    by (simp add: entry_at_chain [OF assms(7)])
  have at_leaf: "emit_eager beh ps ([] @ steps em pre) rest ?s =
      (Some TypeError, ((fst ?s)\<lparr>u_events := chain em pre ?gone\<rparr>, [(?w, ps)]))"
  proof (cases rest)
    case Nil
    with leaf off tw assms(1) show ?thesis
      by (simp add: Let_def w apply_handler_falsy del: node_at_log)
  next
    case (Cons r rs)
    with assms(10) have "post \<noteq> []" by auto
    with Cons leaf off tw assms(1) show ?thesis
      by (simp add: Let_def w apply_handler_falsy del: node_at_log)
  qed
  have run: "emit_eager beh ps [] (es @ rest) ?s =
      (Some TypeError, ((fst ?s)\<lparr>u_events := chain em pre ?gone\<rparr>, [(?w, ps)]))"
    by (rule emit_eager_chain [OF assms(11,12,7) _ at_leaf]) simp_all
  have "on em (Str s) h = (None, em)"
    using assms(1) by (simp add: on_def)
  moreover have "raised (once em (Str s) h) = None"
    by (simp add: once)
  moreover have "handlers (entry_at (steps em pre) (u_events ?em1)) = [?w]"
    by (simp add: once entry_at_chain [OF assms(7)])
  moreover have "returned (emit beh ?em1 ev ps) = Inl TypeError"
    using run assms(9) by (simp add: once emit_def)
  moreover have "applied (emit beh ?em1 ev ps) = [(?w, ps)]"
    using run assms(9) by (simp add: once emit_def)
  ultimately show ?thesis
    using tw by simp
qed

theorem once_registers_wrapper_of_falsy_handler_witness:
  "on (new_Events defaults) (Str ''a'') Undefined = (None, new_Events defaults) \<and>
   handlers (entry_at [Child ''a'']
      (u_events (after (once (new_Events defaults) (Str ''a'') Undefined))))
     = [Process 0 (Str ''a'') Undefined] \<and>
   returned (emit (\<lambda>k. Returns) (after (once (new_Events defaults) (Str ''a'') Undefined)) ''a'' [7])
     = Inl TypeError \<and>
   applied (emit (\<lambda>k. Returns) (after (once (new_Events defaults) (Str ''a'') Undefined))
      ''a'' [7]) = [(Process 0 (Str ''a'') Undefined, [7])]"
  using once_registers_wrapper_of_falsy_handler [where h = Undefined
      and em = "new_Events defaults" and s = "''a''" and pre = "[''a'']" and post = "[]"
      and ev = "''a''" and es = "[''a'']" and rest = "[]" and beh = "\<lambda>k. Returns"
      and ps = "[7]"]
  by (simp add: new_Events_defaults split_a not_inherited_abc new_EventEntry_def process_of_def)

subsection \<open>\<open>once\<close> on a pattern without double wildcard\<close>

text \<open>
  On an emitter with no registrations and no storage hook, for a pattern none of whose
  segments is the double wildcard: the first matching event applies the closure of
  \<open>once\<close> and then the function, and the same event emitted again applies nothing, also
  when the function threw.
\<close>

lemma once_fires_once_without_double_wildcard:
  assumes "u_events em = new_EventEntry"
    and "storeHandlers em = None"
    and "split s (delimiter em) = pre"
    and "doubleWild em \<notin> set pre"
    and "\<forall>x\<in>set pre. \<not> inherited x"
    and "split ev (delimiter em) = es"
    and "matches em es pre"
    and "\<forall>x\<in>set es. \<not> inherited x"
  shows "applied (emit beh (after (once em (Str s) (Fn k))) ev ps)
           = [(process_of em (Str s) (Fn k), ps), (Fn k, ps)] \<and>
         applied (emit beh (emitter_after (emit beh (after (once em (Str s) (Fn k))) ev ps)) ev ps')
           = []"
proof -
  let ?w = "process_of em (Str s) (Fn k)"
  let ?leaf = "EventEntry [] [?w] [] None"
  let ?none = "EventEntry [] [] [] None"
  let ?em0 = "em\<lparr>closures := Suc (closures em)\<rparr>"
  have w: "?w = Process (closures em) (Str s) (Fn k)" and tw: "truthy ?w"
    by (simp_all add: process_of_def)
  have walk: "on_walk ?em0 ?w (pre @ []) new_EventEntry = (None, chain ?em0 pre ?leaf)"
    using assms(2) on_walk_new_chain [of ?em0 pre ?w "[]"] assms(4,5)
    by (simp add: store_def set_handlers_def new_EventEntry_def)
  have once: "once em (Str s) (Fn k) = (None, ?em0\<lparr>u_events := chain em pre ?leaf\<rparr>)"
    using walk assms(1,3) tw by (simp add: once_def on_Str_truthy)
  let ?s = "(?em0\<lparr>u_events := chain em pre ?leaf, event := Some ev\<rparr>, [] :: log)"
  let ?em2 = "?em0\<lparr>u_events := chain em pre ?none, event := Some ev\<rparr>"
  let ?r = "if beh k = Throws then Some (Thrown k) else None"
  have off: "off (fst ?s) (Str s) ?w = (None, ?em2)"
    using off_walk_chain [OF assms(4,5), of ?w "[]" ?leaf] assms(3)
    by (simp add: off_Str w set_handlers_def)
  have leaf: "node_at (steps em pre) ?s = ?leaf"
    by (simp add: entry_at_chain [OF assms(4)])
  have leaf2: "\<And>lg. handlers (node_at (steps em pre) (?em2, lg)) = []"
    by (simp add: entry_at_chain [OF assms(4)])
  have at_leaf: "emit_eager beh ps ([] @ steps em pre) [] ?s = (?r, (?em2, [(?w, ps), (Fn k, ps)]))"
    using leaf off tw
    by (cases "beh k") (simp_all add: Let_def w del: node_at_log)
  have run: "emit_eager beh ps [] (es @ []) ?s = (?r, (?em2, [(?w, ps), (Fn k, ps)]))"
    by (rule emit_eager_chain_leaf [OF assms(7,8,4) _ at_leaf, of ?leaf ?none]) simp_all
  have first: "emit beh (after (once em (Str s) (Fn k))) ev ps =
      (case ?r of None \<Rightarrow> Inr ps | Some x \<Rightarrow> Inl x, (?em2, [(?w, ps), (Fn k, ps)]))"
    using run assms(6) by (simp add: once emit_def)
  let ?s2 = "(?em2, [] :: log)"
  have at_leaf2: "emit_eager beh ps' ([] @ steps em pre) [] ?s2 = (None, ?s2)"
    using leaf2 [of "[]"] by (simp del: node_at_log)
  have run2: "emit_eager beh ps' [] (es @ []) ?s2 = (None, ?s2)"
    by (rule emit_eager_chain [OF assms(7,8,4) _ at_leaf2]) simp_all
  have second: "applied (emit beh ?em2 ev ps') = []"
    using run2 assms(6) by (simp add: emit_def)
  show ?thesis
    unfolding first using second by simp
qed

subsection \<open>\<open>once\<close> on a pattern with a double wildcard\<close>
lemma split_ww_w_ww: "split ''**.*.**'' ''.'' = [''**'', ''*'', ''**'']"
  by code_simp

lemma split_w: "split ''*'' ''.'' = [''*'']"
  by code_simp

lemma split_a_w: "split ''a.*'' ''.'' = [''a'', ''*'']"
  by code_simp

lemma once_a_ww:
  "once (new_Events defaults) (Str ''a.**'') (Fn 0) =
     (None, (new_Events defaults)\<lparr>closures := 1, u_events :=
        EventEntry [(''a'', EventEntry [] [Process 0 (Str ''a.**'') (Fn 0)]
          [Process 0 (Str ''a.**'') (Fn 0)] None)] [] [] None\<rparr>)"
  by (simp add: once_def process_of_def on_def new_Events_defaults split_a_ww node_simps
      not_inherited_abc)

lemma once_ww_w_ww:
  "once (new_Events defaults) (Str ''**.*.**'') (Fn 0) =
     (None, (new_Events defaults)\<lparr>closures := 1, u_events :=
        EventEntry [] [] [Process 0 (Str ''**.*.**'') (Fn 0)]
          (Some (EventEntry [] [Process 0 (Str ''**.*.**'') (Fn 0)]
             [Process 0 (Str ''**.*.**'') (Fn 0)] None))\<rparr>)"
  by (simp add: once_def process_of_def on_def new_Events_defaults split_ww_w_ww node_simps)

text \<open>
  C5 at two inputs, on a default emitter with a function that returns normally.  After
  \<open>once("a.**", f)\<close>, \<open>emit("a")\<close> applies the closure and \<open>f\<close>, and a second
  \<open>emit("a")\<close> applies both again: the closure's \<open>off("a.**", process)\<close> removes the
  entry in \<open>allBelow\<close> and returns, and the entry in \<open>handlers\<close> of node \<open>a\<close> stays.
  After \<open>once("**.*.**", f)\<close>, emitting the very string \<open>**.*.**\<close> applies \<open>f\<close> twice,
  and emitting it a second time applies \<open>f\<close> once more.
\<close>

theorem once_on_double_wildcard_fires_again:
  "applied (emit (\<lambda>k. Returns)
      (after (once (new_Events defaults) (Str ''a.**'') (Fn 0))) ''a'' [1])
     = [(Process 0 (Str ''a.**'') (Fn 0), [1]), (Fn 0, [1])] \<and>
   applied (emit (\<lambda>k. Returns)
      (emitter_after (emit (\<lambda>k. Returns)
         (after (once (new_Events defaults) (Str ''a.**'') (Fn 0))) ''a'' [1])) ''a'' [2])
     = [(Process 0 (Str ''a.**'') (Fn 0), [2]), (Fn 0, [2])] \<and>
   applied (emit (\<lambda>k. Returns)
      (after (once (new_Events defaults) (Str ''**.*.**'') (Fn 0))) ''**.*.**'' [1])
     = [(Process 0 (Str ''**.*.**'') (Fn 0), [1]), (Fn 0, [1]),
        (Process 0 (Str ''**.*.**'') (Fn 0), [1]), (Fn 0, [1])] \<and>
   applied (emit (\<lambda>k. Returns)
      (emitter_after (emit (\<lambda>k. Returns)
         (after (once (new_Events defaults) (Str ''**.*.**'') (Fn 0))) ''**.*.**'' [1]))
      ''**.*.**'' [2])
     = [(Process 0 (Str ''**.*.**'') (Fn 0), [2]), (Fn 0, [2])]"
  unfolding once_a_ww once_ww_w_ww snd_conv
  by (simp add: emit_def new_Events_defaults split_a split_a_ww split_ww_w_ww off_def
      node_simps not_inherited_abc not_inherited_wild)

subsection \<open>\<open>off\<close> on a single wildcard that was never registered\<close>

text \<open>
  C6 at two inputs, on a default emitter.  \<open>off("*", f)\<close> on the empty trie does not throw
  and leaves the root with a new, empty \<open>_all\<close> node; after \<open>on("a", g)\<close>,
  \<open>off("a.*", f)\<close> leaves node \<open>a\<close> with a new, empty \<open>_all\<close> node.  No bucket
  changes.
\<close>

theorem off_wildcard_creates_node:
  "u_events (new_Events defaults) = EventEntry [] [] [] None \<and>
   off (new_Events defaults) (Str ''*'') (Fn 0) =
     (None, (new_Events defaults)\<lparr>u_events :=
        EventEntry [] [] [] (Some (EventEntry [] [] [] None))\<rparr>) \<and>
   u_events (after (on (new_Events defaults) (Str ''a'') (Fn 1))) =
     EventEntry [(''a'', EventEntry [] [Fn 1] [] None)] [] [] None \<and>
   u_events (after (off (after (on (new_Events defaults) (Str ''a'') (Fn 1))) (Str ''a.*'') (Fn 0))) =
     EventEntry [(''a'', EventEntry [] [Fn 1] [] (Some (EventEntry [] [] [] None)))] [] [] None"
  by (simp add: off_def on_def new_Events_defaults split_w split_a split_a_w node_simps
      not_inherited_abc)

end
